theory Spec2Isabelle
  imports Main "HOL-Library.Word"
begin

section \<open>JavaScript strings and the string methods the reader calls\<close>

text \<open>
  The reader under study is \<^verbatim>\<open>ollamaChatStreamWordByWord\<close> of
  \<^verbatim>\<open>src/app/components/AIAssistantPage.tsx\<close>. A JavaScript string is a sequence of
  16-bit code units; the body of the HTTP response arrives as chunks of bytes.
\<close>

type_synonym byte = "8 word"
type_synonym code_unit = "16 word"
type_synonym jsstring = "code_unit list"

text \<open>A string literal of the source, for literals within Latin-1.\<close>

definition js :: "string \<Rightarrow> jsstring" where
  "js s = map (\<lambda>c. of_nat (of_char c)) s"

text \<open>A text on the wire, one byte for each character of the Isabelle string.\<close>

definition bytes :: "string \<Rightarrow> byte list" where
  "bytes s = map (\<lambda>c. of_nat (of_char c)) s"

definition NL :: code_unit where
  "NL = 0x0A"

text \<open>
  ECMAScript's WhiteSpace and LineTerminator code points: the set that both
  \<^verbatim>\<open>String.prototype.trim\<close> and the regular expression class \<^verbatim>\<open>\s\<close> use.
\<close>

definition is_space :: "code_unit \<Rightarrow> bool" where
  "is_space c =
     (c = 0x09 \<or> c = 0x0A \<or> c = 0x0B \<or> c = 0x0C \<or> c = 0x0D \<or> c = 0x20 \<or> c = 0xA0
      \<or> c = 0x1680 \<or> (0x2000 \<le> c \<and> c \<le> 0x200A) \<or> c = 0x2028 \<or> c = 0x2029
      \<or> c = 0x202F \<or> c = 0x205F \<or> c = 0x3000 \<or> c = 0xFEFF)"

text \<open>\<^verbatim>\<open>line.trim()\<close>\<close>

definition trim :: "jsstring \<Rightarrow> jsstring" where
  "trim s = rev (dropWhile is_space (rev (dropWhile is_space s)))"

text \<open>
  \<^verbatim>\<open>buffer.split("\n")\<close>: the pieces between the newlines, one more than there are
  newlines, so never an empty array.
\<close>

fun split_newline :: "jsstring \<Rightarrow> jsstring list" where
  "split_newline [] = [[]]"
| "split_newline (c # cs) =
     (if c = NL then [] # split_newline cs
      else (case split_newline cs of
              [] \<Rightarrow> [[c]]
            | l # ls \<Rightarrow> (c # l) # ls))"

text \<open>
  \<^verbatim>\<open>pending.split(/(\s+)/)\<close>: the separator is a maximal run of white space and, being
  captured, is itself a piece of the result. The pieces alternate between a run without
  white space (empty when the string starts or ends with white space) and a run of white
  space; the empty string gives one empty piece.
\<close>

function split_whitespace :: "jsstring \<Rightarrow> jsstring list" where
  "split_whitespace s =
     (let word = takeWhile (\<lambda>c. \<not> is_space c) s;
          rest = dropWhile (\<lambda>c. \<not> is_space c) s
      in if rest = [] then [word]
         else word # takeWhile is_space rest # split_whitespace (dropWhile is_space rest))"
  by pat_completeness auto
termination
proof (relation "measure length")
  show "wf (measure length)" by simp
next
  fix s :: jsstring and word rest :: jsstring
  assume rest: "rest = dropWhile (\<lambda>c. \<not> is_space c) s" and ne: "rest \<noteq> []"
  from ne obtain c cs where r: "rest = c # cs" by (cases rest) auto
  from rest r have "dropWhile (\<lambda>c. \<not> is_space c) s = c # cs" by simp
  then have "is_space c"
    by (simp add: dropWhile_eq_Cons_conv)
  with r have "length (dropWhile is_space rest) \<le> length cs"
    by (simp add: length_dropWhile_le)
  moreover have "length rest \<le> length s"
    unfolding rest by (rule length_dropWhile_le)
  ultimately show "(dropWhile is_space rest, s) \<in> measure length"
    using r by simp
qed

declare split_whitespace.simps [simp del]

text \<open>
  \<^verbatim>\<open>array.pop()\<close>: removes the last element and returns it; \<^verbatim>\<open>undefined\<close>
  (\<open>None\<close>) on an empty array.
\<close>

definition pop :: "'a list \<Rightarrow> 'a option \<times> 'a list" where
  "pop xs = (if xs = [] then (None, []) else (Some (last xs), butlast xs))"

text \<open>\<^verbatim>\<open>Array.prototype.join\<close>\<close>

fun join :: "jsstring \<Rightarrow> jsstring list \<Rightarrow> jsstring" where
  "join sep [] = []"
| "join sep [x] = x"
| "join sep (x # y # ys) = x @ sep @ join sep (y # ys)"

section \<open>The values \<^verbatim>\<open>JSON.parse\<close> returns\<close>

text \<open>
  A Number is represented by its rendering under \<^verbatim>\<open>Number.prototype.toString\<close>, which
  determines it up to the sign of zero; the reader only ever tests a Number for truth and
  appends it to a string. An object is the list of its own properties.
\<close>

datatype json =
    JNull
  | JBool bool
  | JNum jsstring
  | JStr jsstring
  | JArr "json list"
  | JObj "(jsstring \<times> json) list"

text \<open>
  \<^verbatim>\<open>v?.k\<close> for the property names the reader uses (\<^verbatim>\<open>message\<close>, \<^verbatim>\<open>content\<close>,
  \<^verbatim>\<open>done\<close>); \<open>None\<close> is \<^verbatim>\<open>undefined\<close>. No prototype defines one of these names, so
  only an object that owns the property has it.
\<close>

definition optional_member :: "json option \<Rightarrow> jsstring \<Rightarrow> json option" where
  "optional_member v k = (case v of Some (JObj kvs) \<Rightarrow> map_of kvs k | _ \<Rightarrow> None)"

text \<open>ToBoolean, as \<^verbatim>\<open>if (chunk)\<close> and \<^verbatim>\<open>!!obj?.done\<close> apply it.\<close>

fun ToBoolean :: "json \<Rightarrow> bool" where
  "ToBoolean JNull = False"
| "ToBoolean (JBool b) = b"
| "ToBoolean (JNum n) = (n \<noteq> js ''0'' \<and> n \<noteq> js ''NaN'')"
| "ToBoolean (JStr s) = (s \<noteq> [])"
| "ToBoolean (JArr xs) = True"
| "ToBoolean (JObj kvs) = True"

text \<open>
  The string that \<^verbatim>\<open>pending += chunk\<close> appends. An array is joined with commas (a
  \<^verbatim>\<open>null\<close> element as the empty string); an object is \<^verbatim>\<open>[object Object]\<close>, unless it
  owns a property \<^verbatim>\<open>toString\<close>, which is then not callable and the conversion throws
  a TypeError (\<open>None\<close>).
\<close>

fun ToString :: "json \<Rightarrow> jsstring option" where
  "ToString JNull = Some (js ''null'')"
| "ToString (JBool b) = Some (if b then js ''true'' else js ''false'')"
| "ToString (JNum n) = Some n"
| "ToString (JStr s) = Some s"
| "ToString (JArr xs) =
     map_option (join (js '',''))
       (those (map (\<lambda>x. if x = JNull then Some [] else ToString x) xs))"
| "ToString (JObj kvs) =
     (if map_of kvs (js ''toString'') = None then Some (js ''[object Object]'') else None)"

text \<open>\<^verbatim>\<open>const chunk: string = obj?.message?.content ?? ""\<close>\<close>

definition chunk_of :: "json \<Rightarrow> json" where
  "chunk_of obj =
     (case optional_member (optional_member (Some obj) (js ''message'')) (js ''content'') of
        None \<Rightarrow> JStr []
      | Some JNull \<Rightarrow> JStr []
      | Some v \<Rightarrow> v)"

text \<open>\<^verbatim>\<open>const doneFlag: boolean = !!obj?.done\<close>\<close>

definition doneFlag_of :: "json \<Rightarrow> bool" where
  "doneFlag_of obj =
     (case optional_member (Some obj) (js ''done'') of
        None \<Rightarrow> False
      | Some v \<Rightarrow> ToBoolean v)"

section \<open>The platform: \<^verbatim>\<open>JSON.parse\<close>, \<^verbatim>\<open>TextDecoder\<close>, \<^verbatim>\<open>fetch\<close>\<close>

text \<open>
  What the browser provides is a parameter of the model. \<open>JSON_parse\<close> is \<open>None\<close> where
  \<^verbatim>\<open>JSON.parse\<close> throws. A \<^verbatim>\<open>TextDecoder\<close> consumes its input byte by byte, keeping
  the bytes of an unfinished character in its state: \<open>decoder_handler\<close> is what one byte
  adds to the output, \<open>decoder_new\<close> the state of a new decoder.
\<close>

record 'd runtime =
  JSON_parse :: "jsstring \<Rightarrow> json option"
  decoder_new :: 'd
  decoder_handler :: "'d \<Rightarrow> byte \<Rightarrow> jsstring \<times> 'd"

text \<open>\<^verbatim>\<open>decoder.decode(value, { stream: true })\<close>\<close>

fun decode :: "('d \<Rightarrow> byte \<Rightarrow> jsstring \<times> 'd) \<Rightarrow> 'd \<Rightarrow> byte list \<Rightarrow> jsstring \<times> 'd" where
  "decode h d [] = ([], d)"
| "decode h d (b # bs) =
     (let (t, d') = h d b; (ts, d'') = decode h d' bs in (t @ ts, d''))"

text \<open>
  The reason a promise of the platform rejects with: the \<^verbatim>\<open>AbortError\<close> of an aborted
  signal (the caller tests \<^verbatim>\<open>err?.name === "AbortError"\<close>), or any other failure.
\<close>

datatype rejection = AbortError | TransportFailure jsstring

text \<open>What the function throws: a rejection it lets through, or an error of its own.\<close>

datatype thrown =
    Rejected rejection
  | Error_HTTP nat jsstring
  | Error_NO_STREAM_BODY
  | TypeError

datatype outcome = Returned | Threw thrown

text \<open>
  A body stream: the chunks that \<^verbatim>\<open>reader.read()\<close> delivers, then how the reads end,
  with \<^verbatim>\<open>done\<close> or with a rejection.
\<close>

datatype read_end = EndOfStream | ReadRejects rejection

datatype body_stream = Stream "byte list list" read_end

text \<open>
  The response, as far as the function looks at it; \<open>text_body\<close> is what
  \<^verbatim>\<open>res.text()\<close> resolves with, \<open>None\<close> when it rejects.
\<close>

record response =
  ok :: bool
  status :: nat
  statusText :: jsstring
  text_body :: "jsstring option"
  body :: "body_stream option"

datatype fetch_result = FetchRejects rejection | FetchResolves response

section \<open>The reader\<close>

text \<open>
  Calls of \<^verbatim>\<open>opts.onToken\<close> are an output: each function returns the list of the
  strings it passed to the sink, in order.

  Lines 99 to 108: append the chunk to \<open>pending\<close>, split, keep the last piece, emit the
  others that are not empty. The result is the new \<open>pending\<close> and the calls of the sink.
\<close>

definition append_chunk :: "jsstring \<Rightarrow> json \<Rightarrow> thrown + jsstring \<times> jsstring list" where
  "append_chunk pending chunk =
     (case ToString chunk of
        None \<Rightarrow> Inl TypeError
      | Some s \<Rightarrow>
          (let pending' = pending @ s;
               parts = split_whitespace pending';
               (popped, parts') = pop parts
           in Inr (case popped of None \<Rightarrow> [] | Some p \<Rightarrow> p,
                   filter (\<lambda>part. part \<noteq> []) parts')))"

text \<open>The body of \<^verbatim>\<open>for (const line of lines)\<close>, lines 84 to 117.\<close>

definition process_line ::
  "'d runtime \<Rightarrow> jsstring \<Rightarrow> jsstring \<Rightarrow> thrown option \<times> jsstring \<times> jsstring list" where
  "process_line rt pending line =
     (let trimmed = trim line in
      if trimmed = [] then (None, pending, [])
      else case JSON_parse rt trimmed of
        None \<Rightarrow> (None, pending, [])
      | Some obj \<Rightarrow>
          (let chunk = chunk_of obj; doneFlag = doneFlag_of obj in
           case (if ToBoolean chunk then append_chunk pending chunk else Inr (pending, [])) of
             Inl e \<Rightarrow> (Some e, pending, [])
           | Inr (pending1, out1) \<Rightarrow>
               if doneFlag \<and> pending1 \<noteq> [] then (None, [], out1 @ [pending1])
               else (None, pending1, out1)))"

text \<open>The loop over the lines of one chunk; an exception leaves it.\<close>

fun for_lines ::
  "'d runtime \<Rightarrow> jsstring \<Rightarrow> jsstring list \<Rightarrow> thrown option \<times> jsstring \<times> jsstring list" where
  "for_lines rt pending [] = (None, pending, [])"
| "for_lines rt pending (line # lines) =
     (case process_line rt pending line of
        (Some e, p, out) \<Rightarrow> (Some e, p, out)
      | (None, p, out) \<Rightarrow>
          (let (r, p', out') = for_lines rt p lines in (r, p', out @ out')))"

text \<open>
  Lines 77 to 81: the decoded text is appended to \<open>buffer\<close>, the buffer is split at the
  newlines, and the last piece is the new buffer (\<^verbatim>\<open>lines.pop() || ""\<close>). The result
  is the lines to process and the new buffer.
\<close>

definition split_buffer :: "jsstring \<Rightarrow> jsstring \<Rightarrow> jsstring list \<times> jsstring" where
  "split_buffer buffer decoded =
     (let (popped, lines) = pop (split_newline (buffer @ decoded))
      in (lines, case popped of None \<Rightarrow> [] | Some l \<Rightarrow> l))"

text \<open>
  The \<^verbatim>\<open>while (true)\<close> loop, lines 73 to 119, from the state of the decoder, \<open>buffer\<close>
  and \<open>pending\<close>. The result is the exception that left the loop, if any, \<open>pending\<close> at
  that moment, and the calls of the sink.
\<close>

fun read_loop ::
  "'d runtime \<Rightarrow> 'd \<Rightarrow> jsstring \<Rightarrow> jsstring \<Rightarrow> byte list list \<Rightarrow> read_end \<Rightarrow>
   thrown option \<times> jsstring \<times> jsstring list" where
  "read_loop rt d buffer pending [] EndOfStream = (None, pending, [])"
| "read_loop rt d buffer pending [] (ReadRejects r) = (Some (Rejected r), pending, [])"
| "read_loop rt d buffer pending (v # rest) e =
     (let (decoded, d') = decode (decoder_handler rt) d v;
          (lines, buffer') = split_buffer buffer decoded
      in case for_lines rt pending lines of
           (Some ex, p, out) \<Rightarrow> (Some ex, p, out)
         | (None, p, out) \<Rightarrow>
             (let (r, p', out') = read_loop rt d' buffer' p rest e in (r, p', out @ out')))"

text \<open>
  Lines 63 to 123, on the body of the response: the loop from the initial state, then
  the final flush.
\<close>

definition read_body :: "'d runtime \<Rightarrow> body_stream option \<Rightarrow> outcome \<times> jsstring list" where
  "read_body rt b =
     (case b of
        None \<Rightarrow> (Threw Error_NO_STREAM_BODY, [])
      | Some (Stream chunks e) \<Rightarrow>
          (case read_loop rt (decoder_new rt) [] [] chunks e of
             (Some ex, p, out) \<Rightarrow> (Threw ex, out)
           | (None, p, out) \<Rightarrow> (Returned, if p \<noteq> [] then out @ [p] else out)))"

text \<open>
  The whole function, from the result of \<^verbatim>\<open>fetch\<close>: how the invocation ends and the
  calls of the sink it made.
\<close>

definition ollamaChatStreamWordByWord ::
  "'d runtime \<Rightarrow> fetch_result \<Rightarrow> outcome \<times> jsstring list" where
  "ollamaChatStreamWordByWord rt fr =
     (case fr of
        FetchRejects r \<Rightarrow> (Threw (Rejected r), [])
      | FetchResolves res \<Rightarrow>
          if \<not> ok res then
            (Threw (Error_HTTP (status res)
               (case text_body res of
                  None \<Rightarrow> statusText res
                | Some txt \<Rightarrow> if txt \<noteq> [] then txt else statusText res)), [])
          else read_body rt (body res))"

section \<open>Notions for stating the properties\<close>

text \<open>The lines of a text that a newline terminates.\<close>

definition complete_lines :: "jsstring \<Rightarrow> jsstring list" where
  "complete_lines s = butlast (split_newline s)"

text \<open>The text that a new decoder has produced once it has consumed the bytes.\<close>

definition decoded :: "'d runtime \<Rightarrow> byte list \<Rightarrow> jsstring" where
  "decoded rt bs = fst (decode (decoder_handler rt) (decoder_new rt) bs)"

text \<open>A text made of lines, each followed by a newline.\<close>

definition unlines :: "jsstring list \<Rightarrow> jsstring" where
  "unlines ls = concat (map (\<lambda>l. l @ [NL]) ls)"

text \<open>
  What the reader reads in a line: \<open>None\<close> when the line is skipped (blank, or refused
  by \<^verbatim>\<open>JSON.parse\<close>), else the values of \<^verbatim>\<open>chunk\<close> and \<^verbatim>\<open>doneFlag\<close>.
\<close>

definition record_fields :: "'d runtime \<Rightarrow> jsstring \<Rightarrow> (json \<times> bool) option" where
  "record_fields rt line =
     (if trim line = [] then None
      else map_option (\<lambda>obj. (chunk_of obj, doneFlag_of obj)) (JSON_parse rt (trim line)))"

section \<open>A concrete platform\<close>

text \<open>
  The UTF-8 decoder of the Encoding Standard in replacement mode, the decoder that
  \<^verbatim>\<open>new TextDecoder("utf-8")\<close> creates: its state is the code point under
  construction, the bytes seen and needed, the bounds on the next byte, and whether a
  first character has been serialised (a leading byte order mark is dropped).
\<close>

record utf8_decoder =
  code_point :: nat
  bytes_seen :: nat
  bytes_needed :: nat
  lower_boundary :: nat
  upper_boundary :: nat
  BOM_seen :: bool

definition utf8_new :: utf8_decoder where
  "utf8_new = \<lparr>code_point = 0, bytes_seen = 0, bytes_needed = 0,
               lower_boundary = 0x80, upper_boundary = 0xBF, BOM_seen = False\<rparr>"

definition utf8_reset :: "utf8_decoder \<Rightarrow> utf8_decoder" where
  "utf8_reset d = d\<lparr>code_point := 0, bytes_seen := 0, bytes_needed := 0,
                    lower_boundary := 0x80, upper_boundary := 0xBF\<rparr>"

text \<open>A byte that starts a character (no bytes needed): the code points it yields.\<close>

definition utf8_lead :: "utf8_decoder \<Rightarrow> nat \<Rightarrow> nat list \<times> utf8_decoder" where
  "utf8_lead d b =
     (if b \<le> 0x7F then ([b], d)
      else if 0xC2 \<le> b \<and> b \<le> 0xDF then
        ([], d\<lparr>code_point := b mod 0x20, bytes_needed := 1\<rparr>)
      else if 0xE0 \<le> b \<and> b \<le> 0xEF then
        ([], d\<lparr>code_point := b mod 0x10, bytes_needed := 2,
               lower_boundary := (if b = 0xE0 then 0xA0 else lower_boundary d),
               upper_boundary := (if b = 0xED then 0x9F else upper_boundary d)\<rparr>)
      else if 0xF0 \<le> b \<and> b \<le> 0xF4 then
        ([], d\<lparr>code_point := b mod 0x08, bytes_needed := 3,
               lower_boundary := (if b = 0xF0 then 0x90 else lower_boundary d),
               upper_boundary := (if b = 0xF4 then 0x8F else upper_boundary d)\<rparr>)
      else ([0xFFFD], d))"

text \<open>
  Any byte. A byte outside the bounds ends the unfinished character with U+FFFD and is
  then read again as the start of a character.
\<close>

definition utf8_byte :: "utf8_decoder \<Rightarrow> nat \<Rightarrow> nat list \<times> utf8_decoder" where
  "utf8_byte d b =
     (if bytes_needed d = 0 then utf8_lead d b
      else if b < lower_boundary d \<or> upper_boundary d < b then
        (let (cps, d') = utf8_lead (utf8_reset d) b in (0xFFFD # cps, d'))
      else
        (let cp = code_point d * 0x40 + b mod 0x40; seen = bytes_seen d + 1
         in if seen \<noteq> bytes_needed d then
              ([], d\<lparr>code_point := cp, bytes_seen := seen,
                     lower_boundary := 0x80, upper_boundary := 0xBF\<rparr>)
            else ([cp], utf8_reset d)))"

text \<open>A code point as UTF-16 code units.\<close>

definition utf16 :: "nat \<Rightarrow> jsstring" where
  "utf16 cp =
     (if cp < 0x10000 then [of_nat cp]
      else [of_nat (0xD800 + (cp - 0x10000) div 0x400),
            of_nat (0xDC00 + (cp - 0x10000) mod 0x400)])"

text \<open>Serialising the code points; the first one is dropped when it is U+FEFF.\<close>

fun serialize :: "bool \<Rightarrow> nat list \<Rightarrow> jsstring \<times> bool" where
  "serialize seen [] = ([], seen)"
| "serialize seen (cp # cps) =
     (if \<not> seen \<and> cp = 0xFEFF then serialize True cps
      else (let (s, seen') = serialize True cps in (utf16 cp @ s, seen')))"

definition utf8_handler :: "utf8_decoder \<Rightarrow> byte \<Rightarrow> jsstring \<times> utf8_decoder" where
  "utf8_handler d b =
     (let (cps, d') = utf8_byte d (unat b);
          (s, seen) = serialize (BOM_seen d') cps
      in (s, d'\<lparr>BOM_seen := seen\<rparr>))"

text \<open>
  A parser for the lines of one shape,
  \<^verbatim>\<open>{"message":{"content":"..."},"done":true}\<close> or the same with \<^verbatim>\<open>false\<close>, where the
  content has no escape, quote or control character; on these \<^verbatim>\<open>JSON.parse\<close> returns
  the object below. Every other text is refused.
\<close>

definition record_object :: "jsstring \<Rightarrow> bool \<Rightarrow> json" where
  "record_object f d =
     JObj [(js ''message'', JObj [(js ''content'', JStr f)]), (js ''done'', JBool d)]"

definition parse_record :: "jsstring \<Rightarrow> json option" where
  "parse_record s =
     (let p = js ''{\"message\":{\"content\":\"'';
          f = takeWhile (\<lambda>c. c \<noteq> 0x22) (drop (length p) s);
          t = dropWhile (\<lambda>c. c \<noteq> 0x22) (drop (length p) s)
      in if take (length p) s \<noteq> p then None
         else if list_ex (\<lambda>c. c = 0x5C \<or> c < 0x20) f then None
         else if t = js ''\"},\"done\":true}'' then Some (record_object f True)
         else if t = js ''\"},\"done\":false}'' then Some (record_object f False)
         else None)"

text \<open>The text of such a line, with the content \<open>f\<close> and the completion flag \<open>d\<close>.\<close>

definition record_text :: "string \<Rightarrow> bool \<Rightarrow> string" where
  "record_text f d =
     ''{\"message\":{\"content\":\"'' @ f @ ''\"},\"done\":'' @ (if d then ''true'' else ''false'')
       @ ''}''"

definition browser :: "utf8_decoder runtime" where
  "browser = \<lparr>JSON_parse = parse_record, decoder_new = utf8_new,
               decoder_handler = utf8_handler\<rparr>"

text \<open>A response with status 200 and the given body.\<close>

definition success :: "body_stream option \<Rightarrow> response" where
  "success b = \<lparr>ok = True, status = 200, statusText = js ''OK'', text_body = None, body = b\<rparr>"

section \<open>Lines, chunks and the loop\<close>


lemma split_newline_not_Nil: "split_newline s \<noteq> []"
  by (induction s) (auto split: list.splits)

lemma split_newline_no_NL: "l \<in> set (split_newline s) \<Longrightarrow> NL \<notin> set l"
  by (induction s arbitrary: l) (auto split: list.splits if_splits)

lemma split_newline_rebuild:
  "unlines (butlast (split_newline s)) @ last (split_newline s) = s"
  by (induction s) (auto simp: unlines_def split_newline_not_Nil split: list.splits)

lemma split_newline_append:
  "split_newline (a @ b) =
     butlast (split_newline a) @ split_newline (last (split_newline a) @ b)"
proof (induction a)
  case Nil
  show ?case by simp
next
  case (Cons c cs)
  show ?case
  proof (cases "c = NL")
    case True
    then show ?thesis using Cons by (simp add: split_newline_not_Nil)
  next
    case False
    obtain l ls where s: "split_newline cs = l # ls"
      using split_newline_not_Nil [of cs] by (cases "split_newline cs") auto
    show ?thesis
    proof (cases ls)
      case Nil
      with s False Cons show ?thesis by simp
    next
      case (Cons l' ls')
      with s False Cons.IH show ?thesis by simp
    qed
  qed
qed

lemma complete_lines_append:
  "complete_lines (a @ b) = complete_lines a @ complete_lines (last (split_newline a) @ b)"
  by (simp add: complete_lines_def split_newline_append [of a b] butlast_append
      split_newline_not_Nil)

lemma split_newline_line:
  "NL \<notin> set l \<Longrightarrow> split_newline (l @ NL # s) = l # split_newline s"
  by (induction l) auto

lemma split_newline_plain: "NL \<notin> set r \<Longrightarrow> split_newline r = [r]"
  by (induction r) auto

lemma split_newline_unlines:
  "\<forall>l\<in>set ls. NL \<notin> set l \<Longrightarrow> split_newline (unlines ls @ s) = ls @ split_newline s"
  by (induction ls) (auto simp: unlines_def split_newline_line)

lemma complete_lines_unlines:
  "\<forall>l\<in>set ls. NL \<notin> set l \<Longrightarrow> complete_lines (unlines ls @ s) = ls @ complete_lines s"
  by (simp add: complete_lines_def split_newline_unlines butlast_append split_newline_not_Nil)

lemma complete_lines_plain: "NL \<notin> set r \<Longrightarrow> complete_lines r = []"
  by (simp add: complete_lines_def split_newline_plain)

lemma decode_append:
  "decode h d (a @ b) =
     (let (t, d') = decode h d a; (t', d'') = decode h d' b in (t @ t', d''))"
  by (induction a arbitrary: d) (auto split: prod.splits)

lemma for_lines_append:
  "for_lines rt p (xs @ ys) =
     (case for_lines rt p xs of
        (Some e, p', out) \<Rightarrow> (Some e, p', out)
      | (None, p', out) \<Rightarrow>
          (let (r, p'', out') = for_lines rt p' ys in (r, p'', out @ out')))"
  by (induction xs arbitrary: p) (auto split: prod.splits option.splits)

lemma split_buffer_eq:
  "split_buffer buffer t = (complete_lines (buffer @ t), last (split_newline (buffer @ t)))"
  by (simp add: split_buffer_def pop_def complete_lines_def split_newline_not_Nil)

lemma read_loop_eq:
  "NL \<notin> set buffer \<Longrightarrow>
   read_loop rt d buffer p chunks e =
     (case for_lines rt p
             (complete_lines (buffer @ fst (decode (decoder_handler rt) d (concat chunks)))) of
        (Some ex, p', out) \<Rightarrow> (Some ex, p', out)
      | (None, p', out) \<Rightarrow>
          (case e of
             EndOfStream \<Rightarrow> (None, p', out)
           | ReadRejects r \<Rightarrow> (Some (Rejected r), p', out)))"
proof (induction chunks arbitrary: d buffer p)
  case Nil
  then show ?case
    by (cases e) (simp_all add: complete_lines_plain)
next
  case (Cons v rest)
  obtain t d' where dv: "decode (decoder_handler rt) d v = (t, d')"
    by (cases "decode (decoder_handler rt) d v")
  obtain t' d'' where dr: "decode (decoder_handler rt) d' (concat rest) = (t', d'')"
    by (cases "decode (decoder_handler rt) d' (concat rest)")
  define buffer' where "buffer' = last (split_newline (buffer @ t))"
  have nl: "NL \<notin> set buffer'"
    unfolding buffer'_def
    by (rule split_newline_no_NL [of _ "buffer @ t"]) (simp add: split_newline_not_Nil)
  have all: "fst (decode (decoder_handler rt) d (concat (v # rest))) = t @ t'"
    by (simp add: decode_append dv dr)
  have lines: "complete_lines (buffer @ t @ t') =
      complete_lines (buffer @ t) @ complete_lines (buffer' @ t')"
    using complete_lines_append [of "buffer @ t" t'] by (simp add: buffer'_def)
  have IH: "read_loop rt d' buffer' q rest e =
     (case for_lines rt q (complete_lines (buffer' @ t')) of
        (Some ex, p', out) \<Rightarrow> (Some ex, p', out)
      | (None, p', out) \<Rightarrow>
          (case e of
             EndOfStream \<Rightarrow> (None, p', out)
           | ReadRejects r \<Rightarrow> (Some (Rejected r), p', out)))" for q
    using Cons.IH [OF nl, of d' q] by (simp add: dr)
  show ?case
    unfolding all lines for_lines_append
    by (simp add: dv split_buffer_eq buffer'_def [symmetric] IH
        split: prod.splits option.splits read_end.splits)
qed

lemma read_body_eq:
  "read_body rt (Some (Stream chunks e)) =
     (case for_lines rt [] (complete_lines (decoded rt (concat chunks))) of
        (Some ex, p, out) \<Rightarrow> (Threw ex, out)
      | (None, p, out) \<Rightarrow>
          (case e of
             EndOfStream \<Rightarrow> (Returned, if p \<noteq> [] then out @ [p] else out)
           | ReadRejects r \<Rightarrow> (Threw (Rejected r), out)))"
  by (simp add: read_body_def read_loop_eq decoded_def
      split: prod.splits option.splits read_end.splits)

section \<open>Tokens and records\<close>


lemma split_whitespace_unfold:
  "split_whitespace s =
     (if dropWhile (\<lambda>c. \<not> is_space c) s = [] then [takeWhile (\<lambda>c. \<not> is_space c) s]
      else takeWhile (\<lambda>c. \<not> is_space c) s #
           takeWhile is_space (dropWhile (\<lambda>c. \<not> is_space c) s) #
           split_whitespace (dropWhile is_space (dropWhile (\<lambda>c. \<not> is_space c) s)))"
  by (subst split_whitespace.simps) (simp only: Let_def)

lemma split_whitespace_word:
  assumes "dropWhile (\<lambda>c. \<not> is_space c) s = []"
  shows "split_whitespace s = [s]"
proof -
  have "takeWhile (\<lambda>c. \<not> is_space c) s @ dropWhile (\<lambda>c. \<not> is_space c) s = s"
    by (rule takeWhile_dropWhile_id)
  with assms have "takeWhile (\<lambda>c. \<not> is_space c) s = s"
    by (simp only: append_Nil2)
  with assms show ?thesis
    by (subst split_whitespace_unfold) (simp only: if_True refl)
qed

lemma split_whitespace_step:
  assumes "dropWhile (\<lambda>c. \<not> is_space c) s \<noteq> []"
  shows "split_whitespace s =
     takeWhile (\<lambda>c. \<not> is_space c) s #
     takeWhile is_space (dropWhile (\<lambda>c. \<not> is_space c) s) #
     split_whitespace (dropWhile is_space (dropWhile (\<lambda>c. \<not> is_space c) s))"
  by (subst split_whitespace_unfold) (simp only: assms if_False)

lemma split_whitespace_not_Nil: "split_whitespace s \<noteq> []"
proof (cases "dropWhile (\<lambda>c. \<not> is_space c) s = []")
  case True
  then show ?thesis by (simp add: split_whitespace_word)
next
  case False
  then show ?thesis by (simp add: split_whitespace_step)
qed

lemma concat_split_whitespace: "concat (split_whitespace s) = s"
proof (induction s rule: split_whitespace.induct)
  case (1 s)
  show ?case
  proof (cases "dropWhile (\<lambda>c. \<not> is_space c) s = []")
    case True
    then show ?thesis by (simp add: split_whitespace_word)
  next
    case False
    have "concat (split_whitespace s) =
        takeWhile (\<lambda>c. \<not> is_space c) s @
        takeWhile is_space (dropWhile (\<lambda>c. \<not> is_space c) s) @
        concat (split_whitespace (dropWhile is_space (dropWhile (\<lambda>c. \<not> is_space c) s)))"
      using False by (simp add: split_whitespace_step)
    also have "\<dots> = takeWhile (\<lambda>c. \<not> is_space c) s @
        takeWhile is_space (dropWhile (\<lambda>c. \<not> is_space c) s) @
        dropWhile is_space (dropWhile (\<lambda>c. \<not> is_space c) s)"
      using "1.IH" [OF refl refl False] by (simp only:)
    also have "\<dots> = s"
      by (simp only: takeWhile_dropWhile_id)
    finally show ?thesis .
  qed
qed

lemma pop_split_whitespace:
  "pop (split_whitespace s) = (Some (last (split_whitespace s)), butlast (split_whitespace s))"
  by (simp add: pop_def split_whitespace_not_Nil)

lemma concat_filter_nonempty: "concat (filter (\<lambda>part. part \<noteq> []) xs) = concat xs"
  by (induction xs) auto

lemma append_chunk_string:
  "\<exists>p' out. append_chunk p (JStr f) = Inr (p', out) \<and> concat out @ p' = p @ f \<and> [] \<notin> set out"
proof -
  have "concat (butlast (split_whitespace (p @ f))) @ last (split_whitespace (p @ f)) = p @ f"
    using concat_split_whitespace [of "p @ f"] split_whitespace_not_Nil [of "p @ f"]
    by (metis append_butlast_last_id concat.simps(1) concat.simps(2) concat_append append_Nil2)
  then show ?thesis
    by (simp add: append_chunk_def Let_def pop_split_whitespace concat_filter_nonempty)
qed

lemma append_chunk_nonempty: "append_chunk p c = Inr (p', out) \<Longrightarrow> [] \<notin> set out"
  by (auto simp: append_chunk_def pop_def Let_def split: option.splits if_splits)

lemma process_line_skip:
  "record_fields rt line = None \<Longrightarrow> process_line rt p line = (None, p, [])"
  by (auto simp: record_fields_def process_line_def Let_def split: if_splits option.splits)

lemma process_line_nonempty:
  assumes "process_line rt p line = (r, p', out)"
  shows "[] \<notin> set out"
proof (cases "record_fields rt line")
  case None
  with assms show ?thesis by (simp add: process_line_skip)
next
  case (Some cd)
  then obtain obj where t: "trim line \<noteq> []" and obj: "JSON_parse rt (trim line) = Some obj"
    by (auto simp: record_fields_def split: if_splits)
  show ?thesis
  proof (cases "ToBoolean (chunk_of obj)")
    case False
    with assms t obj show ?thesis
      by (auto simp: process_line_def split: if_splits)
  next
    case True
    show ?thesis
    proof (cases "append_chunk p (chunk_of obj)")
      case (Inl e)
      with assms t obj True show ?thesis
        by (simp add: process_line_def)
    next
      case (Inr po)
      obtain p1 out1 where po: "po = (p1, out1)" by (cases po)
      with Inr have "[] \<notin> set out1" by (auto dest: append_chunk_nonempty)
      with assms t obj True Inr po show ?thesis
        by (auto simp: process_line_def split: if_splits)
    qed
  qed
qed

lemma process_line_string:
  assumes "record_fields rt line = Some (JStr f, d)"
  shows "\<exists>p' out. process_line rt p line = (None, p', out) \<and> concat out @ p' = p @ f
           \<and> (d \<longrightarrow> p' = [])"
proof -
  from assms obtain obj where t: "trim line \<noteq> []" and obj: "JSON_parse rt (trim line) = Some obj"
    and c: "chunk_of obj = JStr f" and dn: "doneFlag_of obj = d"
    by (auto simp: record_fields_def split: if_splits)
  show ?thesis
  proof (cases "f = []")
    case True
    with t obj c dn show ?thesis
      by (simp add: process_line_def)
  next
    case False
    obtain p1 out1 where a: "append_chunk p (JStr f) = Inr (p1, out1)"
      and cc: "concat out1 @ p1 = p @ f"
      using append_chunk_string [of p f] by blast
    with t obj c dn False show ?thesis
      by (simp add: process_line_def)
  qed
qed

lemma for_lines_nonempty: "for_lines rt p ls = (r, p', out) \<Longrightarrow> [] \<notin> set out"
proof (induction ls arbitrary: p r p' out)
  case Nil
  then show ?case by simp
next
  case (Cons l ls)
  obtain r1 p1 out1 where pl: "process_line rt p l = (r1, p1, out1)"
    by (cases "process_line rt p l") auto
  then have n1: "[] \<notin> set out1" by (rule process_line_nonempty)
  show ?case
  proof (cases r1)
    case (Some e)
    with pl Cons.prems n1 show ?thesis by auto
  next
    case None
    obtain r2 p2 out2 where fl: "for_lines rt p1 ls = (r2, p2, out2)"
      by (cases "for_lines rt p1 ls") auto
    then have "[] \<notin> set out2" by (rule Cons.IH)
    with pl None fl Cons.prems n1 show ?thesis by auto
  qed
qed

lemma for_lines_strings:
  assumes "list_all2 (\<lambda>l fd. record_fields rt l = Some (JStr (fst fd), snd fd)) ls fds"
  shows "\<exists>p' out. for_lines rt p ls = (None, p', out)
           \<and> concat out @ p' = p @ concat (map fst fds)
           \<and> (fds \<noteq> [] \<and> snd (last fds) \<longrightarrow> p' = [])"
  using assms
proof (induction ls fds arbitrary: p rule: list_all2_induct)
  case Nil
  show ?case by simp
next
  case (Cons l ls fd fds)
  obtain p1 out1 where pl: "process_line rt p l = (None, p1, out1)"
    and c1: "concat out1 @ p1 = p @ fst fd" and d1: "snd fd \<longrightarrow> p1 = []"
    using process_line_string [of rt l "fst fd" "snd fd" p] Cons.hyps(1) by auto
  obtain p2 out2 where fl: "for_lines rt p1 ls = (None, p2, out2)"
    and c2: "concat out2 @ p2 = p1 @ concat (map fst fds)"
    and d2: "fds \<noteq> [] \<and> snd (last fds) \<longrightarrow> p2 = []"
    using Cons.IH [of p1] by auto
  have "concat (out1 @ out2) @ p2 = p @ concat (map fst (fd # fds))"
    using c1 c2 by (metis append_assoc concat_append concat.simps(2) list.simps(9))
  moreover have "snd (last (fd # fds)) \<longrightarrow> p2 = []"
  proof (cases fds)
    case Nil
    with Cons.hyps(2) have "ls = []" by simp
    with fl have "p2 = p1" by simp
    with d1 Nil show ?thesis by simp
  next
    case (Cons a as)
    with d2 show ?thesis by simp
  qed
  ultimately show ?case
    using pl fl by simp
qed

section \<open>The properties of the reader\<close>


lemma process_line_fields:
  "process_line rt p line =
     (case record_fields rt line of
        None \<Rightarrow> (None, p, [])
      | Some (chunk, doneFlag) \<Rightarrow>
          (case (if ToBoolean chunk then append_chunk p chunk else Inr (p, [])) of
             Inl e \<Rightarrow> (Some e, p, [])
           | Inr (p1, out1) \<Rightarrow>
               if doneFlag \<and> p1 \<noteq> [] then (None, [], out1 @ [p1]) else (None, p1, out1)))"
  by (simp add: process_line_def record_fields_def Let_def split: option.splits)

lemma complete_lines_unlines_only:
  "\<forall>l\<in>set ls. NL \<notin> set l \<Longrightarrow> complete_lines (unlines ls) = ls"
  using complete_lines_unlines [of ls "[]"] by (simp add: complete_lines_def)

lemma complete_lines_unlines_residual:
  "\<forall>l\<in>set ls. NL \<notin> set l \<Longrightarrow> NL \<notin> set r \<Longrightarrow> complete_lines (unlines ls @ r) = ls"
  by (simp add: complete_lines_unlines complete_lines_plain)

lemma reader_of_ok:
  "ok res \<Longrightarrow> ollamaChatStreamWordByWord rt (FetchResolves res) = read_body rt (body res)"
  by (simp add: ollamaChatStreamWordByWord_def)

lemma read_body_nonempty: "[] \<notin> set (snd (read_body rt b))"
proof (cases b)
  case None
  then show ?thesis by (simp add: read_body_def)
next
  case (Some st)
  obtain chunks e where st: "st = Stream chunks e" by (cases st)
  obtain r p out where fl:
    "for_lines rt [] (complete_lines (decoded rt (concat chunks))) = (r, p, out)"
    by (cases "for_lines rt [] (complete_lines (decoded rt (concat chunks)))") auto
  then have "[] \<notin> set out" by (rule for_lines_nonempty)
  with Some st fl show ?thesis
    by (cases r; cases e) (simp_all add: read_body_eq)
qed

text \<open>
  Facts for evaluating the reader on the concrete platform.
\<close>

lemmas text_defs = js_def bytes_def record_text_def NL_def

lemmas decoder_defs = decoded_def browser_def utf8_handler_def utf8_byte_def utf8_lead_def
  utf8_reset_def utf8_new_def utf16_def

lemmas parser_defs = record_fields_def browser_def trim_def is_space_def parse_record_def
  record_object_def chunk_of_def doneFlag_of_def optional_member_def

lemmas reader_defs = ollamaChatStreamWordByWord_def success_def read_body_def split_buffer_def
  pop_def process_line_def append_chunk_def split_whitespace_unfold

text \<open>
  Claim C1 (a record whose completion flag is set ends the read). The function does not
  return at such a record: lines 111 to 117 flush \<open>pending\<close> and the loops go on. On
  the stream below the first record carries \<^verbatim>\<open>"a"\<close> with \<^verbatim>\<open>done: true\<close>, and a second
  record with \<^verbatim>\<open>"b"\<close> arrives in a later chunk; the sink is called with \<^verbatim>\<open>"a"\<close> and then
  with \<^verbatim>\<open>"b"\<close>, where the claim has the reader return after \<^verbatim>\<open>"a"\<close>. The other function
  of the repository that reads this stream, \<^verbatim>\<open>ollamaChatStream\<close>, has
  \<^verbatim>\<open>if (obj?.done) return\<close>. On the single record of the claim the loop ends with the sink
  called once, with \<^verbatim>\<open>"hello"\<close>, and \<open>pending\<close> empty.
\<close>

theorem completion_flag_does_not_return:
  "ollamaChatStreamWordByWord browser (FetchResolves (success (Some (Stream
      [bytes (record_text ''a'' True) @ [0x0A], bytes (record_text ''b'' False) @ [0x0A]]
      EndOfStream)))) = (Returned, [js ''a'', js ''b'']) \<and>
   read_loop browser (decoder_new browser) [] []
      [bytes (record_text ''hello'' True) @ [0x0A]] EndOfStream = (None, [], [js ''hello''])"
  by (simp add: reader_defs text_defs decoder_defs parser_defs)

text \<open>
  Claim C2 (order preservation). The chunks decode to the lines \<open>ls\<close>, each followed by a
  newline; line \<open>i\<close> is a record whose text fragment is \<open>fs ! i\<close>, and the completion flag
  is set in the last record and in no other. Then the strings passed to the sink,
  concatenated in order, are the fragments concatenated, and the function returns when
  the stream ends (or throws the rejection of the read that follows the last chunk).
\<close>

theorem order_preservation:
  assumes "ok res" and "body res = Some (Stream chunks e)"
    and "decoded rt (concat chunks) = unlines ls"
    and "ls \<noteq> []" and "length fs = length ls"
    and "\<forall>i<length ls. NL \<notin> set (ls ! i) \<and>
           record_fields rt (ls ! i) = Some (JStr (fs ! i), Suc i = length ls)"
  shows "concat (snd (ollamaChatStreamWordByWord rt (FetchResolves res))) = concat fs \<and>
         fst (ollamaChatStreamWordByWord rt (FetchResolves res)) =
           (case e of EndOfStream \<Rightarrow> Returned | ReadRejects r \<Rightarrow> Threw (Rejected r))"
proof -
  define fds where "fds = map (\<lambda>i. (fs ! i, Suc i = length ls)) [0..<length ls]"
  have nl: "\<forall>l\<in>set ls. NL \<notin> set l"
    using assms(6) by (auto simp: in_set_conv_nth)
  have "list_all2 (\<lambda>l fd. record_fields rt l = Some (JStr (fst fd), snd fd)) ls fds"
    using assms(6) by (simp add: fds_def list_all2_conv_all_nth)
  then obtain p' out where fl: "for_lines rt [] ls = (None, p', out)"
    and c: "concat out @ p' = [] @ concat (map fst fds)"
    and d: "fds \<noteq> [] \<and> snd (last fds) \<longrightarrow> p' = []"
    using for_lines_strings [of rt ls fds "[]"] by blast
  have "map fst fds = fs"
    unfolding fds_def assms(5) [symmetric] by (simp add: o_def map_nth)
  moreover have "fds \<noteq> []" using assms(4) by (simp add: fds_def)
  moreover have "snd (last fds)"
    using assms(4) by (simp add: fds_def last_map last_conv_nth)
  ultimately have "p' = []" and "concat out = concat fs"
    using c d by simp_all
  with fl assms(1,2,3) nl show ?thesis
    by (simp add: reader_of_ok read_body_eq complete_lines_unlines_only split: read_end.splits)
qed

theorem order_preservation_witness:
  "concat (snd (ollamaChatStreamWordByWord browser (FetchResolves (success (Some (Stream
      [bytes (record_text ''Bon'' False) @ [0x0A], bytes (record_text ''jour !'' True) @ [0x0A]]
      EndOfStream)))))) = concat [js ''Bon'', js ''jour !''] \<and>
   ollamaChatStreamWordByWord browser (FetchResolves (success (Some (Stream
      [bytes (record_text ''Bon'' False) @ [0x0A], bytes (record_text ''jour !'' True) @ [0x0A]]
      EndOfStream)))) = (Returned, [js ''Bonjour'', js '' '', js ''!''])"
proof -
  let ?chunks = "[bytes (record_text ''Bon'' False) @ [0x0A],
                  bytes (record_text ''jour !'' True) @ [0x0A]]"
  let ?ls = "[js (record_text ''Bon'' False), js (record_text ''jour !'' True)]"
  let ?res = "success (Some (Stream ?chunks EndOfStream))"
  have 1: "ok ?res" by (simp add: success_def)
  have 2: "body ?res = Some (Stream ?chunks EndOfStream)" by (simp add: success_def)
  have 3: "decoded browser (concat ?chunks) = unlines ?ls"
    by (simp add: unlines_def text_defs decoder_defs)
  have 4: "?ls \<noteq> []" by simp
  have 5: "length [js ''Bon'', js ''jour !''] = length ?ls" by simp
  have 6: "\<forall>i<length ?ls. NL \<notin> set (?ls ! i) \<and>
      record_fields browser (?ls ! i) = Some (JStr ([js ''Bon'', js ''jour !''] ! i), Suc i = length ?ls)"
    by (simp add: All_less_Suc text_defs parser_defs)
  have v: "ollamaChatStreamWordByWord browser (FetchResolves ?res) =
      (Returned, [js ''Bonjour'', js '' '', js ''!''])"
    by (simp add: reader_defs text_defs decoder_defs parser_defs)
  show ?thesis
    using v order_preservation [OF 1 2 3 4 5 6] by (simp only: simp_thms)
qed

text \<open>
  Claim C3 (chunk-boundary independence). Two ways of cutting the same bytes into chunks,
  wherever the cuts fall, give the same calls of the sink and the same outcome; so the
  concatenation of the emitted fragments is the same. The instance cuts the two bytes of
  an \<^verbatim>\<open>e\<close> with acute accent apart, inside a line.
\<close>

theorem chunk_boundary_independence:
  assumes "concat chunks1 = concat chunks2"
  shows "ollamaChatStreamWordByWord rt (FetchResolves (res\<lparr>body := Some (Stream chunks1 e)\<rparr>)) =
         ollamaChatStreamWordByWord rt (FetchResolves (res\<lparr>body := Some (Stream chunks2 e)\<rparr>))"
  using assms by (simp add: ollamaChatStreamWordByWord_def read_body_eq split: option.splits)

theorem chunk_boundary_independence_witness:
  "concat [bytes ''{\"message\":{\"content\":\"caf'' @ [0xC3],
           [0xA9] @ bytes ''\"},\"done\":true}'' @ [0x0A]] =
   concat [bytes (record_text (''caf'' @ [CHR 0xC3, CHR 0xA9]) True) @ [0x0A]] \<and>
   ollamaChatStreamWordByWord browser (FetchResolves ((success None)\<lparr>body := Some (Stream
     [bytes ''{\"message\":{\"content\":\"caf'' @ [0xC3],
      [0xA9] @ bytes ''\"},\"done\":true}'' @ [0x0A]] EndOfStream)\<rparr>)) =
   ollamaChatStreamWordByWord browser (FetchResolves ((success None)\<lparr>body := Some (Stream
     [bytes (record_text (''caf'' @ [CHR 0xC3, CHR 0xA9]) True) @ [0x0A]] EndOfStream)\<rparr>)) \<and>
   ollamaChatStreamWordByWord browser (FetchResolves ((success None)\<lparr>body := Some (Stream
     [bytes ''{\"message\":{\"content\":\"caf'' @ [0xC3],
      [0xA9] @ bytes ''\"},\"done\":true}'' @ [0x0A]] EndOfStream)\<rparr>)) =
     (Returned, [js ''caf'' @ [0xE9]])"
proof -
  have h: "concat [bytes ''{\"message\":{\"content\":\"caf'' @ [0xC3],
           [0xA9] @ bytes ''\"},\"done\":true}'' @ [0x0A]] =
      concat [bytes (record_text (''caf'' @ [CHR 0xC3, CHR 0xA9]) True) @ [0x0A]]"
    by (simp add: text_defs)
  have v: "ollamaChatStreamWordByWord browser (FetchResolves ((success None)\<lparr>body := Some (Stream
     [bytes ''{\"message\":{\"content\":\"caf'' @ [0xC3],
      [0xA9] @ bytes ''\"},\"done\":true}'' @ [0x0A]] EndOfStream)\<rparr>)) =
     (Returned, [js ''caf'' @ [0xE9]])"
    by (simp add: reader_defs text_defs decoder_defs parser_defs)
  show ?thesis
    using h v chunk_boundary_independence [OF h, where rt = browser and res = "success None" and e = EndOfStream]
    by (simp only: simp_thms)
qed

text \<open>
  Claim C4 (cancellation discards the pending text). The loop has consumed \<open>chunks\<close>
  without an exception and awaits the next chunk, with \<open>p\<close> pending and \<open>out\<close> passed to the
  sink so far (the third hypothesis reads this state off the loop). When the read is then
  rejected with the \<^verbatim>\<open>AbortError\<close> of the aborted signal, the function throws that
  rejection, the sink has received \<open>out\<close> and nothing more, and \<open>p\<close> is not emitted. The
  result differs from the one of the same stream failing for any other reason. In the
  instance \<^verbatim>\<open>"Bon"\<close> is pending and the sink is never called.
\<close>

theorem cancellation_discard:
  assumes "ok res" and "body res = Some (Stream chunks (ReadRejects AbortError))"
    and "read_loop rt (decoder_new rt) [] [] chunks EndOfStream = (None, p, out)"
  shows "ollamaChatStreamWordByWord rt (FetchResolves res) = (Threw (Rejected AbortError), out)
     \<and> ollamaChatStreamWordByWord rt (FetchResolves res) \<noteq>
         ollamaChatStreamWordByWord rt
           (FetchResolves (res\<lparr>body := Some (Stream chunks (ReadRejects (TransportFailure m)))\<rparr>))"
proof -
  from assms(3) have "for_lines rt [] (complete_lines (decoded rt (concat chunks))) = (None, p, out)"
    by (simp add: read_loop_eq decoded_def split: prod.splits option.splits)
  with assms(1,2) show ?thesis
    by (simp add: ollamaChatStreamWordByWord_def read_body_eq)
qed

theorem cancellation_discard_witness:
  "read_loop browser (decoder_new browser) [] [] [bytes (record_text ''Bon'' False) @ [0x0A]]
     EndOfStream = (None, js ''Bon'', []) \<and>
   ollamaChatStreamWordByWord browser (FetchResolves (success (Some (Stream
      [bytes (record_text ''Bon'' False) @ [0x0A]] (ReadRejects AbortError))))) =
     (Threw (Rejected AbortError), [])"
proof -
  let ?chunks = "[bytes (record_text ''Bon'' False) @ [0x0A]]"
  let ?res = "success (Some (Stream ?chunks (ReadRejects AbortError)))"
  have 1: "ok ?res" by (simp add: success_def)
  have 2: "body ?res = Some (Stream ?chunks (ReadRejects AbortError))" by (simp add: success_def)
  have 3: "read_loop browser (decoder_new browser) [] [] ?chunks EndOfStream =
      (None, js ''Bon'', [])"
    by (simp add: reader_defs text_defs decoder_defs parser_defs)
  show ?thesis
    using 3 cancellation_discard [OF 1 2 3] by (simp only: simp_thms)
qed

text \<open>
  Claim C5 (malformed lines are skipped). A line \<open>bad\<close> that is blank after trimming or
  that \<^verbatim>\<open>JSON.parse\<close> refuses changes neither \<open>pending\<close> nor the sink and throws nothing;
  and a stream with such a line inserted at a line boundary gives the same calls of the
  sink and the same outcome as the stream without it.
\<close>

theorem malformed_line_tolerance:
  assumes "trim bad = [] \<or> JSON_parse rt (trim bad) = None" and "NL \<notin> set bad"
    and "\<forall>l\<in>set pre. NL \<notin> set l"
    and "decoded rt (concat chunks) = unlines pre @ post"
    and "decoded rt (concat chunks') = unlines pre @ bad @ [NL] @ post"
  shows "process_line rt p bad = (None, p, []) \<and>
     ollamaChatStreamWordByWord rt (FetchResolves (res\<lparr>body := Some (Stream chunks' e)\<rparr>)) =
     ollamaChatStreamWordByWord rt (FetchResolves (res\<lparr>body := Some (Stream chunks e)\<rparr>))"
proof -
  from assms(1) have rf: "record_fields rt bad = None"
    by (auto simp: record_fields_def)
  then have skip: "process_line rt q bad = (None, q, [])" for q
    by (rule process_line_skip)
  have "unlines pre @ bad @ [NL] @ post = unlines (pre @ [bad]) @ post"
    by (simp add: unlines_def)
  moreover have "\<forall>l\<in>set (pre @ [bad]). NL \<notin> set l"
    using assms(2,3) by simp
  ultimately have "complete_lines (unlines pre @ bad @ [NL] @ post) =
      (pre @ [bad]) @ complete_lines post"
    by (simp only: complete_lines_unlines)
  moreover have "complete_lines (unlines pre @ post) = pre @ complete_lines post"
    using assms(3) by (rule complete_lines_unlines)
  moreover have "for_lines rt [] ((pre @ [bad]) @ ls) = for_lines rt [] (pre @ ls)" for ls
    by (simp add: for_lines_append skip split: prod.splits option.splits)
  ultimately have "read_body rt (Some (Stream chunks' e)) = read_body rt (Some (Stream chunks e))"
    by (simp only: read_body_eq assms(4,5))
  then show ?thesis
    using skip by (simp add: ollamaChatStreamWordByWord_def split: option.splits)
qed

theorem malformed_line_tolerance_witness:
  "ollamaChatStreamWordByWord browser (FetchResolves ((success None)\<lparr>body := Some (Stream
      [bytes (record_text ''Bon'' False) @ [0x0A] @ bytes ''{\"message\":'' @ [0x0A]
         @ bytes (record_text ''jour'' True) @ [0x0A]] EndOfStream)\<rparr>)) =
   ollamaChatStreamWordByWord browser (FetchResolves ((success None)\<lparr>body := Some (Stream
      [bytes (record_text ''Bon'' False) @ [0x0A] @ bytes (record_text ''jour'' True) @ [0x0A]]
      EndOfStream)\<rparr>)) \<and>
   ollamaChatStreamWordByWord browser (FetchResolves ((success None)\<lparr>body := Some (Stream
      [bytes (record_text ''Bon'' False) @ [0x0A] @ bytes (record_text ''jour'' True) @ [0x0A]]
      EndOfStream)\<rparr>)) = (Returned, [js ''Bonjour''])"
proof -
  let ?chunks = "[bytes (record_text ''Bon'' False) @ [0x0A]
                    @ bytes (record_text ''jour'' True) @ [0x0A]]"
  let ?chunks' = "[bytes (record_text ''Bon'' False) @ [0x0A] @ bytes ''{\"message\":'' @ [0x0A]
                    @ bytes (record_text ''jour'' True) @ [0x0A]]"
  let ?bad = "js ''{\"message\":''"
  let ?pre = "[js (record_text ''Bon'' False)]"
  let ?post = "js (record_text ''jour'' True) @ [NL]"
  have 1: "trim ?bad = [] \<or> JSON_parse browser (trim ?bad) = None"
    by (simp add: text_defs parser_defs)
  have 2: "NL \<notin> set ?bad" by (simp add: text_defs)
  have 3: "\<forall>l\<in>set ?pre. NL \<notin> set l" by (simp add: text_defs)
  have 4: "decoded browser (concat ?chunks) = unlines ?pre @ ?post"
    by (simp add: unlines_def text_defs decoder_defs)
  have 5: "decoded browser (concat ?chunks') = unlines ?pre @ ?bad @ [NL] @ ?post"
    by (simp add: unlines_def text_defs decoder_defs)
  have v: "ollamaChatStreamWordByWord browser (FetchResolves ((success None)\<lparr>body := Some (Stream
      ?chunks EndOfStream)\<rparr>)) = (Returned, [js ''Bonjour''])"
    by (simp add: reader_defs text_defs decoder_defs parser_defs)
  show ?thesis
    using v malformed_line_tolerance [OF 1 2 3 4 5, where res = "success None" and e = EndOfStream]
    by (simp only: simp_thms)
qed

text \<open>
  Claim C6 (no body). With the body absent, the reader (line 63 on) throws
  \<^verbatim>\<open>NO_STREAM_BODY\<close> at once and the sink is never called; so does the whole function on
  a response that passed the status check of line 58, the response the reader is
  specified for.
\<close>

theorem no_body_precondition:
  assumes "body res = None"
  shows "read_body rt (body res) = (Threw Error_NO_STREAM_BODY, []) \<and>
         (ok res \<longrightarrow>
            ollamaChatStreamWordByWord rt (FetchResolves res) = (Threw Error_NO_STREAM_BODY, []))"
  using assms by (simp add: ollamaChatStreamWordByWord_def read_body_def)

theorem no_body_precondition_witness:
  "body (success None) = None \<and> ok (success None) \<and>
   ollamaChatStreamWordByWord browser (FetchResolves (success None)) =
     (Threw Error_NO_STREAM_BODY, [])"
proof -
  have h: "body (success None) = None" by (simp add: success_def)
  have k: "ok (success None)" by (simp add: success_def)
  show ?thesis
    using h k no_body_precondition [OF h, of browser] by simp
qed

text \<open>
  Claim C7 (white space is kept). Three records with the fragments \<^verbatim>\<open>"a"\<close>, two spaces
  and \<^verbatim>\<open>"b"\<close>, the last with the completion flag: the sink receives exactly these three
  strings, whose concatenation is \<^verbatim>\<open>"a  b"\<close>.
\<close>

theorem whitespace_run_fidelity:
  assumes "ok res" and "body res = Some (Stream chunks EndOfStream)"
    and "decoded rt (concat chunks) = unlines [l1, l2, l3]"
    and "NL \<notin> set l1" and "NL \<notin> set l2" and "NL \<notin> set l3"
    and "record_fields rt l1 = Some (JStr (js ''a''), False)"
    and "record_fields rt l2 = Some (JStr (js ''  ''), False)"
    and "record_fields rt l3 = Some (JStr (js ''b''), True)"
  shows "ollamaChatStreamWordByWord rt (FetchResolves res) =
           (Returned, [js ''a'', js ''  '', js ''b'']) \<and>
         concat (snd (ollamaChatStreamWordByWord rt (FetchResolves res))) = js ''a  b''"
proof -
  have "complete_lines (unlines [l1, l2, l3]) = [l1, l2, l3]"
    using assms(4,5,6) by (simp add: complete_lines_unlines_only)
  moreover have "for_lines rt [] [l1, l2, l3] = (None, [], [js ''a'', js ''  '', js ''b''])"
    by (simp add: process_line_fields assms(7,8,9) append_chunk_def pop_def
        split_whitespace_unfold js_def is_space_def)
  ultimately show ?thesis
    using assms(1,2,3) by (simp add: reader_of_ok read_body_eq js_def)
qed

theorem whitespace_run_fidelity_witness:
  "ollamaChatStreamWordByWord browser (FetchResolves (success (Some (Stream
      [bytes (record_text ''a'' False) @ [0x0A], bytes (record_text ''  '' False) @ [0x0A],
       bytes (record_text ''b'' True) @ [0x0A]] EndOfStream)))) =
     (Returned, [js ''a'', js ''  '', js ''b''])"
proof -
  let ?chunks = "[bytes (record_text ''a'' False) @ [0x0A], bytes (record_text ''  '' False) @ [0x0A],
       bytes (record_text ''b'' True) @ [0x0A]]"
  let ?res = "success (Some (Stream ?chunks EndOfStream))"
  have 1: "ok ?res" by (simp add: success_def)
  have 2: "body ?res = Some (Stream ?chunks EndOfStream)" by (simp add: success_def)
  have 3: "decoded browser (concat ?chunks) =
      unlines [js (record_text ''a'' False), js (record_text ''  '' False), js (record_text ''b'' True)]"
    by (simp add: unlines_def text_defs decoder_defs)
  have 4: "NL \<notin> set (js (record_text ''a'' False))" by (simp add: text_defs)
  have 5: "NL \<notin> set (js (record_text ''  '' False))" by (simp add: text_defs)
  have 6: "NL \<notin> set (js (record_text ''b'' True))" by (simp add: text_defs)
  have 7: "record_fields browser (js (record_text ''a'' False)) = Some (JStr (js ''a''), False)"
    by (simp add: text_defs parser_defs)
  have 8: "record_fields browser (js (record_text ''  '' False)) = Some (JStr (js ''  ''), False)"
    by (simp add: text_defs parser_defs)
  have 9: "record_fields browser (js (record_text ''b'' True)) = Some (JStr (js ''b''), True)"
    by (simp add: text_defs parser_defs)
  show ?thesis
    using whitespace_run_fidelity [OF 1 2 3 4 5 6 7 8 9] by (simp only: simp_thms)
qed

text \<open>
  Claim C8 (the line buffer holds no newline). After the splitting step of lines 77 to 81,
  whatever the buffer and the decoded text were, the new buffer contains no newline, the
  lines handed to the parsing loop contain none either, and these lines, each with its
  newline, followed by the new buffer are the old buffer followed by the decoded text.
\<close>

theorem line_buffer_invariant:
  "NL \<notin> set (snd (split_buffer buffer decoded_text)) \<and>
   (\<forall>l\<in>set (fst (split_buffer buffer decoded_text)). NL \<notin> set l) \<and>
   unlines (fst (split_buffer buffer decoded_text)) @ snd (split_buffer buffer decoded_text) =
     buffer @ decoded_text"
proof -
  let ?s = "buffer @ decoded_text"
  have "last (split_newline ?s) \<in> set (split_newline ?s)"
    by (simp add: split_newline_not_Nil)
  then have 1: "NL \<notin> set (last (split_newline ?s))"
    by (rule split_newline_no_NL)
  have 2: "NL \<notin> set l" if "l \<in> set (complete_lines ?s)" for l
  proof -
    from that have "l \<in> set (split_newline ?s)"
      unfolding complete_lines_def by (rule in_set_butlastD)
    then show ?thesis by (rule split_newline_no_NL)
  qed
  have 3: "unlines (complete_lines ?s) @ last (split_newline ?s) = ?s"
    unfolding complete_lines_def by (rule split_newline_rebuild)
  from 1 2 3 show ?thesis
    by (simp add: split_buffer_eq)
qed

theorem line_buffer_invariant_witness:
  "split_buffer (js ''ab'') (js ''c'' @ [NL] @ js ''de'' @ [NL] @ js ''f'') =
     ([js ''abc'', js ''de''], js ''f'') \<and>
   NL \<notin> set (snd (split_buffer (js ''ab'') (js ''c'' @ [NL] @ js ''de'' @ [NL] @ js ''f'')))"
proof -
  have "split_buffer (js ''ab'') (js ''c'' @ [NL] @ js ''de'' @ [NL] @ js ''f'') =
     ([js ''abc'', js ''de''], js ''f'')"
    by (simp add: split_buffer_def pop_def text_defs)
  then show ?thesis
    using line_buffer_invariant [of "js ''ab''" "js ''c'' @ [NL] @ js ''de'' @ [NL] @ js ''f''"]
    by simp
qed

text \<open>
  Claim C9 (the unterminated last line is dropped). The stream ends with \<^verbatim>\<open>done\<close> and
  its text is the lines \<open>ls\<close>, each with a newline, followed by a rest \<open>r\<close> without newline.
  The result is then what the lines \<open>ls\<close> alone give, with the final flush of \<open>pending\<close>:
  \<open>r\<close> is not parsed and nothing of it is emitted. In the instance \<open>r\<close> is a complete
  record with the fragment \<^verbatim>\<open>"lost"\<close>.
\<close>

theorem residual_line_discarded:
  assumes "ok res" and "body res = Some (Stream chunks EndOfStream)"
    and "decoded rt (concat chunks) = unlines ls @ r"
    and "\<forall>l\<in>set ls. NL \<notin> set l" and "NL \<notin> set r"
  shows "ollamaChatStreamWordByWord rt (FetchResolves res) =
     (case for_lines rt [] ls of
        (Some ex, p, out) \<Rightarrow> (Threw ex, out)
      | (None, p, out) \<Rightarrow> (Returned, if p \<noteq> [] then out @ [p] else out))"
  using assms
  by (simp add: reader_of_ok read_body_eq complete_lines_unlines_residual
      split: prod.splits option.splits)

theorem residual_line_discarded_witness:
  "ollamaChatStreamWordByWord browser (FetchResolves (success (Some (Stream
      [bytes (record_text ''kept'' False) @ [0x0A] @ bytes (record_text ''lost'' True)]
      EndOfStream)))) = (Returned, [js ''kept'']) \<and>
   record_fields browser (js (record_text ''lost'' True)) = Some (JStr (js ''lost''), True)"
proof -
  let ?chunks = "[bytes (record_text ''kept'' False) @ [0x0A] @ bytes (record_text ''lost'' True)]"
  let ?res = "success (Some (Stream ?chunks EndOfStream))"
  let ?ls = "[js (record_text ''kept'' False)]"
  let ?r = "js (record_text ''lost'' True)"
  have 1: "ok ?res" by (simp add: success_def)
  have 2: "body ?res = Some (Stream ?chunks EndOfStream)" by (simp add: success_def)
  have 3: "decoded browser (concat ?chunks) = unlines ?ls @ ?r"
    by (simp add: unlines_def text_defs decoder_defs)
  have 4: "\<forall>l\<in>set ?ls. NL \<notin> set l" by (simp add: text_defs)
  have 5: "NL \<notin> set ?r" by (simp add: text_defs)
  have 6: "for_lines browser [] ?ls = (None, js ''kept'', [])"
    by (simp add: reader_defs text_defs parser_defs)
  have 7: "record_fields browser ?r = Some (JStr (js ''lost''), True)"
    by (simp add: text_defs parser_defs)
  have 8: "js ''kept'' \<noteq> []" by (simp add: js_def)
  show ?thesis
    using 7 residual_line_discarded [OF 1 2 3 4 5, unfolded 6] by (simp add: 8)
qed

text \<open>
  Claim C10 (no empty token). Whatever \<^verbatim>\<open>fetch\<close> and the stream deliver, no call of the
  sink passes the empty string.
\<close>

theorem tokens_nonempty: "[] \<notin> set (snd (ollamaChatStreamWordByWord rt fr))"
proof (cases fr)
  case (FetchRejects r)
  then show ?thesis by (simp add: ollamaChatStreamWordByWord_def)
next
  case (FetchResolves res)
  show ?thesis
  proof (cases "ok res")
    case True
    with FetchResolves show ?thesis
      by (simp only: reader_of_ok read_body_nonempty not_False_eq_True)
  next
    case False
    with FetchResolves show ?thesis by (simp add: ollamaChatStreamWordByWord_def)
  qed
qed

theorem tokens_nonempty_witness:
  "[] \<notin> set (snd (ollamaChatStreamWordByWord browser (FetchResolves (success (Some (Stream
      [bytes (record_text ''a  b'' True) @ [0x0A]] EndOfStream))))))"
  by (rule tokens_nonempty)

end
